theory Spec2Isabelle
  imports Main "HOL-Library.Sublist"
begin

section \<open>claude-commit: message extraction and action dispatch\<close>

text \<open>
  A shallow embedding of \<^verbatim>\<open>src/claude_commit/main.py\<close>: the event loop of
  \<^verbatim>\<open>generate_commit_message\<close>, the extraction of the commit message from the
  accumulated assistant text, the markdown cleanup, and the dispatch in \<^verbatim>\<open>main\<close>.

  Python strings are modelled as \<^typ>\<open>string\<close>, one \<^typ>\<open>char\<close> per code point, which
  covers the code points below 256. The outside world (the agent's event stream, the
  platform, the clipboard tool, the operator's answer, git) is an explicit argument.
  Diagnostics printed only in verbose mode are not part of the model.
\<close>

subsection \<open>The string methods the program uses\<close>

text \<open>
  \<^verbatim>\<open>str.strip()\<close>, \<^verbatim>\<open>str.rstrip()\<close> without argument remove the characters for which
  \<^verbatim>\<open>str.isspace\<close> holds: below 256 these are U+0009..U+000D, U+001C..U+0020, U+0085
  and U+00A0.
\<close>

definition isspace :: "char \<Rightarrow> bool" where
  "isspace c =
     (let n = (of_char c :: nat)
      in (9 \<le> n \<and> n \<le> 13) \<or> (28 \<le> n \<and> n \<le> 32) \<or> n = 133 \<or> n = 160)"

definition lstrip :: "string \<Rightarrow> string" where
  "lstrip s = dropWhile isspace s"

definition rstrip :: "string \<Rightarrow> string" where
  "rstrip s = rev (dropWhile isspace (rev s))"

definition strip :: "string \<Rightarrow> string" where
  "strip s = lstrip (rstrip s)"

text \<open>
  \<^verbatim>\<open>str.lower()\<close>: below 256 the upper-case letters are A..Z and U+00C0..U+00DE without
  the multiplication sign U+00D7; each maps to the code point 32 above it.
\<close>

definition lower_char :: "char \<Rightarrow> char" where
  "lower_char c =
     (let n = (of_char c :: nat)
      in if (65 \<le> n \<and> n \<le> 90) \<or> (192 \<le> n \<and> n \<le> 222 \<and> n \<noteq> 215)
         then char_of (n + 32) else c)"

definition lower :: "string \<Rightarrow> string" where
  "lower s = map lower_char s"

text \<open>\<^verbatim>\<open>s.startswith(p)\<close>.\<close>

definition startswith :: "string \<Rightarrow> string \<Rightarrow> bool" where
  "startswith s p = prefix p s"

text \<open>\<^verbatim>\<open>sub in s\<close>: some position of \<open>s\<close> carries \<open>sub\<close>.\<close>

fun contains :: "string \<Rightarrow> string \<Rightarrow> bool" where
  "contains sub [] = (sub = [])"
| "contains sub (c # cs) = (prefix sub (c # cs) \<or> contains sub cs)"

text \<open>
  \<^verbatim>\<open>s.split(sep, 1)\<close> for a non-empty separator: the list of parts, one part when
  \<open>sep\<close> does not occur, otherwise the text before the leftmost occurrence and the
  text after it. (Python raises on an empty separator; the program only passes the
  marker.)
\<close>

fun split_once :: "string \<Rightarrow> string \<Rightarrow> string list" where
  "split_once sep [] = [[]]"
| "split_once sep (c # cs) =
     (if prefix sep (c # cs) then [[], drop (length sep) (c # cs)]
      else (let parts = split_once sep cs in (c # hd parts) # tl parts))"

text \<open>\<^verbatim>\<open>s.split("\n")\<close>: the parts between line feeds; never the empty list.\<close>

definition NL :: char where
  "NL = CHR 0x0A"

fun split_nl :: "string \<Rightarrow> string list" where
  "split_nl [] = [[]]"
| "split_nl (c # cs) =
     (let parts = split_nl cs in if c = NL then [] # parts else (c # hd parts) # tl parts)"

text \<open>\<^verbatim>\<open>"\n".join(xs)\<close>.\<close>

fun join_nl :: "string list \<Rightarrow> string" where
  "join_nl [] = []"
| "join_nl [x] = x"
| "join_nl (x # y # ys) = x @ NL # join_nl (y # ys)"

text \<open>
  \<^verbatim>\<open>s.replace(old, new)\<close> for a non-empty \<open>old\<close>: the occurrences of \<open>old\<close> are
  replaced from left to right, without overlap.
\<close>

fun replace :: "string \<Rightarrow> string \<Rightarrow> string \<Rightarrow> string" where
  "replace old new [] = []"
| "replace old new (c # cs) =
     (if old \<noteq> [] \<and> prefix old (c # cs)
      then new @ replace old new (drop (length old) (c # cs))
      else c # replace old new cs)"

subsection \<open>Constants of the program\<close>

definition MARKER :: string where
  "MARKER = ''COMMIT_MESSAGE:''"

definition FENCE :: string where
  "FENCE = [CHR 0x60, CHR 0x60, CHR 0x60]"

definition QUOTE :: char where
  "QUOTE = CHR 0x27"

definition BACKSLASH :: char where
  "BACKSLASH = CHR 0x5C"

definition FILLER_PREFIXES :: "string list" where
  "FILLER_PREFIXES =
     [''let me'', ''i'' @ [QUOTE] @ ''ll'', ''i will'', ''now i'', ''first'', ''i can see'']"

subsection \<open>Extraction of the candidate\<close>

text \<open>
  The test of the fallback loop (lines 168 to 171): the trimmed text is non-empty and its
  lower-case form starts with none of the filler prefixes.
\<close>

definition meaningful :: "string \<Rightarrow> bool" where
  "meaningful text =
     (text \<noteq> [] \<and> \<not> list_ex (\<lambda>p. startswith (lower text) p) FILLER_PREFIXES)"

text \<open>
  The fallback loop over \<^verbatim>\<open>reversed(all_text)\<close>: the first text that passes the test is
  assigned and the loop breaks; when none passes, \<^verbatim>\<open>commit_message\<close> keeps its value.
\<close>

fun fallback_scan :: "string list \<Rightarrow> string option \<Rightarrow> string option" where
  "fallback_scan [] commit_message = commit_message"
| "fallback_scan (t # ts) commit_message =
     (let text = strip t
      in if meaningful text then Some text else fallback_scan ts commit_message)"

text \<open>Lines 155 to 173: the candidate, from the marker or from the fallback.\<close>

definition select_candidate :: "string option \<Rightarrow> string list \<Rightarrow> string option" where
  "select_candidate commit_message all_text =
     (let full_response = join_nl all_text
      in if contains MARKER full_response
         then (let parts = split_once MARKER full_response
               in if length parts > 1 then Some (strip (parts ! 1)) else commit_message)
         else fallback_scan (rev all_text) commit_message)"

subsection \<open>Markdown cleanup\<close>

text \<open>
  The loop of lines 181 to 186, with its two variables \<^verbatim>\<open>in_code_block\<close> and
  \<^verbatim>\<open>cleaned_lines\<close>.
\<close>

fun cleanup_loop :: "string list \<Rightarrow> bool \<Rightarrow> string list \<Rightarrow> string list" where
  "cleanup_loop [] in_code_block cleaned_lines = cleaned_lines"
| "cleanup_loop (line # lines) in_code_block cleaned_lines =
     (if startswith (strip line) FENCE
      then cleanup_loop lines (\<not> in_code_block) cleaned_lines
      else if \<not> in_code_block \<and> strip line \<noteq> []
      then cleanup_loop lines in_code_block (cleaned_lines @ [rstrip line])
      else cleanup_loop lines in_code_block cleaned_lines)"

definition cleanup :: "string \<Rightarrow> string" where
  "cleanup commit_message = strip (join_nl (cleanup_loop (split_nl commit_message) False []))"

text \<open>Lines 176 to 188: the cleanup runs only on a non-empty candidate.\<close>

definition cleanup_step :: "string option \<Rightarrow> string option" where
  "cleanup_step commit_message =
     (case commit_message of
        None \<Rightarrow> None
      | Some m \<Rightarrow> if m \<noteq> [] then Some (cleanup m) else Some m)"

subsection \<open>The event loop of the agent session\<close>

datatype content_block = TextBlock string | ToolUseBlock | ToolResultBlock

text \<open>
  The messages the session yields. Of a \<^verbatim>\<open>ResultMessage\<close> only \<^verbatim>\<open>is_error\<close> decides
  anything; cost, duration and turn count are printed in verbose mode only.
\<close>

datatype message =
    AssistantMessage "content_block list"
  | ResultMessage (is_error: bool)
  | OtherMessage

record gen_state =
  commit_message :: "string option"
  all_text :: "string list"

fun on_block :: "gen_state \<Rightarrow> content_block \<Rightarrow> gen_state" where
  "on_block st (TextBlock text) = st\<lparr>all_text := all_text st @ [strip text]\<rparr>"
| "on_block st _ = st"

fun on_message :: "gen_state \<Rightarrow> message \<Rightarrow> gen_state" where
  "on_message st (AssistantMessage content) = foldl on_block st content"
| "on_message st (ResultMessage err) =
     (if \<not> err
      then st\<lparr>commit_message :=
                cleanup_step (select_candidate (commit_message st) (all_text st))\<rparr>
      else st)"
| "on_message st OtherMessage = st"

definition initial_state :: gen_state where
  "initial_state = \<lparr>commit_message = None, all_text = []\<rparr>"

text \<open>
  How the iteration over \<^verbatim>\<open>query(...)\<close> ends: the stream is exhausted, or it raises.
  \<^verbatim>\<open>KeyboardInterrupt\<close> is not an \<^verbatim>\<open>Exception\<close> and leaves the function.
\<close>

datatype stream_end =
    Exhausted
  | CLINotFoundError
  | ProcessError
  | OtherException
  | KeyboardInterrupt

type_synonym session = "message list \<times> stream_end"

datatype effect =
    ErrCLINotFound
  | ErrProcess
  | ErrUnexpected
  | ErrInterrupted
  | ErrFailedToGenerate
  | ShowMessage string
  | PreviewComplete
  | ClipboardWrite string string
  | Copied
  | ClipboardUnsupported
  | ClipboardFailed
  | AskConfirm
  | CommitCancelled
  | GitCommit string
  | Committed
  | CommitFailed
  | CommitUnexpected
  | SuggestCommand string

datatype gen_result = Returned "string option" | Interrupted

fun generate_commit_message :: "session \<Rightarrow> gen_result \<times> effect list" where
  "generate_commit_message (msgs, Exhausted) =
     (Returned (commit_message (foldl on_message initial_state msgs)), [])"
| "generate_commit_message (msgs, CLINotFoundError) = (Returned None, [ErrCLINotFound])"
| "generate_commit_message (msgs, ProcessError) = (Returned None, [ErrProcess])"
| "generate_commit_message (msgs, OtherException) = (Returned None, [ErrUnexpected])"
| "generate_commit_message (msgs, KeyboardInterrupt) = (Interrupted, [])"

subsection \<open>The command line and the outside world\<close>

record args =
  all_changes :: bool
  verbose :: bool
  path :: "string option"
  max_diff_lines :: int
  commit :: bool
  copy :: bool
  preview :: bool

text \<open>
  What the operator types at \<^verbatim>\<open>input(...)\<close>, or that the call raises an \<^verbatim>\<open>Exception\<close>
  (end of input). What \<^verbatim>\<open>subprocess.run(..., check=True)\<close> does: it returns, raises
  \<^verbatim>\<open>CalledProcessError\<close> on a non-zero exit status, or raises another \<^verbatim>\<open>Exception\<close>
  (the program is not installed).
\<close>

datatype input_result = Typed string | InputRaises

datatype run_result = RunOk | CalledProcessError | RunRaises

record world =
  platform_system :: string
  clipboard_result :: run_result
  answer :: input_result
  git_result :: run_result

subsection \<open>Dispatch\<close>

text \<open>Lines 311 to 326: the clipboard copy; every failure is caught and reported.\<close>

definition copy_to_clipboard :: "world \<Rightarrow> string \<Rightarrow> effect list" where
  "copy_to_clipboard w m =
     (if platform_system w = ''Darwin''
      then ClipboardWrite ''pbcopy'' m #
             (if clipboard_result w = RunOk then [Copied] else [ClipboardFailed])
      else if platform_system w = ''Linux''
      then ClipboardWrite ''xclip -selection clipboard'' m #
             (if clipboard_result w = RunOk then [Copied] else [ClipboardFailed])
      else [ClipboardUnsupported])"

text \<open>Lines 328 to 355: confirmation and commit; the exit code and what happened.\<close>

definition confirm_and_commit :: "world \<Rightarrow> string \<Rightarrow> int \<times> effect list" where
  "confirm_and_commit w m =
     (case answer w of
        InputRaises \<Rightarrow> (1, [AskConfirm, CommitUnexpected])
      | Typed response \<Rightarrow>
          if lower response \<noteq> ''y'' then (0, [AskConfirm, CommitCancelled])
          else (case git_result w of
                  RunOk \<Rightarrow> (0, [AskConfirm, GitCommit m, Committed])
                | CalledProcessError \<Rightarrow> (1, [AskConfirm, GitCommit m, CommitFailed])
                | RunRaises \<Rightarrow> (1, [AskConfirm, GitCommit m, CommitUnexpected])))"

text \<open>
  Lines 359 to 361: the command line printed by \<^const>\<open>SuggestCommand\<close>, the message
  between single quotes with each single quote of its own replaced.
\<close>

definition escaped_message :: "string \<Rightarrow> string" where
  "escaped_message m = replace [QUOTE] [QUOTE, BACKSLASH, QUOTE, QUOTE] m"

definition suggested_command :: "string \<Rightarrow> string" where
  "suggested_command m = ''   git commit -m '' @ [QUOTE] @ escaped_message m @ [QUOTE]"

text \<open>Lines 299 to 362: what \<^verbatim>\<open>main\<close> does with a message.\<close>

definition dispatch :: "args \<Rightarrow> world \<Rightarrow> string \<Rightarrow> int \<times> effect list" where
  "dispatch a w m =
     (if preview a then (0, [ShowMessage m, PreviewComplete])
      else
        (let copied = (if copy a then copy_to_clipboard w m else [])
         in if commit a
            then (let (code, done) = confirm_and_commit w m
                  in (code, ShowMessage m # copied @ done))
            else (0, ShowMessage m # copied @ [SuggestCommand m])))"

text \<open>
  \<^verbatim>\<open>main\<close>: the exit code of the process and the effects in order.
  \<^verbatim>\<open>not commit_message\<close> holds for \<^verbatim>\<open>None\<close> and for the empty string.
\<close>

definition main :: "args \<Rightarrow> world \<Rightarrow> session \<Rightarrow> int \<times> effect list" where
  "main a w s =
     (case generate_commit_message s of
        (Interrupted, errs) \<Rightarrow> (130, errs @ [ErrInterrupted])
      | (Returned None, errs) \<Rightarrow> (1, errs @ [ErrFailedToGenerate])
      | (Returned (Some m), errs) \<Rightarrow>
          if m = [] then (1, errs @ [ErrFailedToGenerate])
          else (let (code, done) = dispatch a w m in (code, errs @ done)))"

subsection \<open>Notions used by the properties\<close>

text \<open>A line the cleanup loop leaves as it is: not blank, no fence, nothing to trim on the right.\<close>

definition kept_line :: "string \<Rightarrow> bool" where
  "kept_line l \<longleftrightarrow> strip l \<noteq> [] \<and> \<not> startswith (strip l) FENCE \<and> rstrip l = l"

text \<open>
  What holds of a message after the cleanup: it is not empty, none of its lines is blank,
  is a fence line or ends in whitespace, and the whole has no whitespace at either end.
\<close>

definition post_cleanup_invariant :: "string \<Rightarrow> bool" where
  "post_cleanup_invariant m \<longleftrightarrow>
     m \<noteq> [] \<and>
     (\<forall>l\<in>set (split_nl m). strip l \<noteq> []) \<and>
     (\<forall>l\<in>set (split_nl m). \<not> startswith (strip l) FENCE) \<and>
     (\<forall>l\<in>set (split_nl m). rstrip l = l) \<and>
     strip m = m"

text \<open>The accumulated text log: \<^verbatim>\<open>all_text\<close> after the given messages.\<close>

definition accumulated :: "message list \<Rightarrow> string list" where
  "accumulated msgs = all_text (foldl on_message initial_state msgs)"

text \<open>The values \<^verbatim>\<open>commit_message\<close> takes during the event loop.\<close>

definition message_ok :: "string option \<Rightarrow> bool" where
  "message_ok cm \<longleftrightarrow> (case cm of None \<Rightarrow> True | Some m \<Rightarrow> m = [] \<or> post_cleanup_invariant m)"

text \<open>The effects that reach the clipboard, the operator or the repository.\<close>

fun side_effect :: "effect \<Rightarrow> bool" where
  "side_effect (ClipboardWrite c m) = True"
| "side_effect AskConfirm = True"
| "side_effect (GitCommit m) = True"
| "side_effect _ = False"

text \<open>The message an effect shows, copies, commits or embeds.\<close>

fun acted_on :: "effect \<Rightarrow> string option" where
  "acted_on (ShowMessage m) = Some m"
| "acted_on (ClipboardWrite c m) = Some m"
| "acted_on (GitCommit m) = Some m"
| "acted_on (SuggestCommand m) = Some m"
| "acted_on _ = None"

subsection \<open>The cleanup as the specification words it\<close>

text \<open>A fence line: its trimmed form starts with three backticks.\<close>

definition is_fence_line :: "string \<Rightarrow> bool" where
  "is_fence_line l = startswith (strip l) FENCE"

text \<open>
  The flag is toggled at every fence line, so at line \<open>i\<close> it has been toggled once for
  each fence line before \<open>i\<close>. A line survives when it is no fence line, the flag, which
  starts as \<open>inside\<close>, is off at it, and it is not blank.
\<close>

definition fences_before :: "string list \<Rightarrow> nat \<Rightarrow> nat" where
  "fences_before lines i = length (filter is_fence_line (take i lines))"

definition survives :: "bool \<Rightarrow> string list \<Rightarrow> nat \<Rightarrow> bool" where
  "survives inside lines i \<longleftrightarrow>
     \<not> is_fence_line (lines ! i) \<and>
     odd (fences_before lines i) = inside \<and>
     strip (lines ! i) \<noteq> []"

definition surviving_lines :: "bool \<Rightarrow> string list \<Rightarrow> string list" where
  "surviving_lines inside lines =
     map ((!) lines) (filter (survives inside lines) [0..<length lines])"

text \<open>
  Split into lines, keep the surviving lines, trim each on the right, join with line feeds,
  trim the whole.
\<close>

definition cleanup_spec :: "string \<Rightarrow> string" where
  "cleanup_spec s = strip (join_nl (map rstrip (surviving_lines False (split_nl s))))"

subsection \<open>A session, a command line and a world to evaluate on\<close>

definition example_session :: session where
  "example_session =
     ([AssistantMessage [TextBlock ''Let me look. '', ToolUseBlock],
       AssistantMessage
         [TextBlock (''Done.'' @ [NL] @ ''COMMIT_MESSAGE:'' @ [NL] @ ''fix: it'' @ [QUOTE] @ ''s broken  '')],
       ResultMessage False], Exhausted)"

definition example_args :: "bool \<Rightarrow> bool \<Rightarrow> bool \<Rightarrow> args" where
  "example_args c cp p =
     \<lparr>all_changes = False, verbose = False, path = None, max_diff_lines = 500,
      commit = c, copy = cp, preview = p\<rparr>"

definition example_world :: "input_result \<Rightarrow> run_result \<Rightarrow> world" where
  "example_world r g =
     \<lparr>platform_system = ''Linux'', clipboard_result = RunOk, answer = r, git_result = g\<rparr>"

definition example_message :: string where
  "example_message = ''fix: it'' @ [QUOTE] @ ''s broken''"

definition interrupted_session :: session where
  "interrupted_session = ([AssistantMessage [TextBlock ''Let me look.'']], KeyboardInterrupt)"

definition failing_session :: "stream_end \<Rightarrow> session" where
  "failing_session e =
     ([AssistantMessage [TextBlock ''COMMIT_MESSAGE: fix: a''], ResultMessage False], e)"

definition marked_log :: "string list" where
  "marked_log = [''ok'', ''COMMIT_MESSAGE: a COMMIT_MESSAGE: b '']"

definition fenced_session_messages :: "message list" where
  "fenced_session_messages =
     [AssistantMessage [TextBlock (''Let me check.'' @ [NL] @ ''COMMIT_MESSAGE:'' @ [NL] @
        FENCE @ [NL] @ ''feat: add X'' @ [NL] @ ''- detail'' @ [NL] @ FENCE)]]"

definition fenced_text :: string where
  "fenced_text =
     ''  intro  '' @ [NL] @ FENCE @ ''py'' @ [NL] @ ''code'' @ [NL] @ FENCE @ [NL, NL] @ '' tail  ''"

section \<open>Auxiliary facts\<close>

subsection \<open>Trimming\<close>

lemma lstrip_Nil_iff: "lstrip s = [] \<longleftrightarrow> (\<forall>c\<in>set s. isspace c)"
  by (simp add: lstrip_def)

lemma rstrip_Nil_iff: "rstrip s = [] \<longleftrightarrow> (\<forall>c\<in>set s. isspace c)"
  by (simp add: rstrip_def)

lemma set_rstrip: "c \<in> set (rstrip s) \<Longrightarrow> c \<in> set s"
  using set_dropWhileD [of c isspace "rev s"] by (simp add: rstrip_def)

lemma set_lstrip: "c \<in> set (lstrip s) \<Longrightarrow> c \<in> set s"
  using set_dropWhileD [of c isspace s] by (simp add: lstrip_def)

lemma rstrip_fixed_iff: "rstrip s = s \<longleftrightarrow> s = [] \<or> \<not> isspace (last s)"
proof -
  have "rstrip s = s \<longleftrightarrow> dropWhile isspace (rev s) = rev s"
    unfolding rstrip_def by (simp add: rev_swap)
  also have "\<dots> \<longleftrightarrow> rev s = [] \<or> \<not> isspace (hd (rev s))"
    by (rule dropWhile_eq_self_iff)
  finally show ?thesis by (auto simp: hd_rev)
qed

lemma rstrip_idem: "rstrip (rstrip s) = rstrip s"
  by (simp add: rstrip_def)

lemma lstrip_idem: "lstrip (lstrip s) = lstrip s"
  by (simp add: lstrip_def)

lemma strip_Nil [simp]: "strip [] = []"
  by (simp add: strip_def rstrip_def lstrip_def)

lemma strip_Nil_iff: "strip s = [] \<longleftrightarrow> (\<forall>c\<in>set s. isspace c)"
proof
  assume "strip s = []"
  then have "\<forall>c\<in>set (rstrip s). isspace c"
    by (simp add: strip_def lstrip_Nil_iff)
  then have "rstrip (rstrip s) = []"
    by (simp only: rstrip_Nil_iff)
  then have "rstrip s = []"
    by (simp only: rstrip_idem)
  then show "\<forall>c\<in>set s. isspace c" by (simp only: rstrip_Nil_iff)
next
  assume "\<forall>c\<in>set s. isspace c"
  then have "rstrip s = []" by (simp only: rstrip_Nil_iff)
  then show "strip s = []" by (simp add: strip_def lstrip_def)
qed

lemma lstrip_append: "lstrip a \<noteq> [] \<Longrightarrow> lstrip (a @ b) = lstrip a @ b"
  by (auto simp: lstrip_def)

lemma last_lstrip: "lstrip s \<noteq> [] \<Longrightarrow> last (lstrip s) = last s"
  by (auto simp: lstrip_def dropWhile_last)

lemma rstrip_lstrip:
  assumes "rstrip s = s"
  shows "rstrip (lstrip s) = lstrip s"
proof (cases "lstrip s = []")
  case True
  then show ?thesis by (simp add: rstrip_def)
next
  case False
  then have "s \<noteq> []" by (auto simp: lstrip_def)
  with assms have "\<not> isspace (last s)" by (simp add: rstrip_fixed_iff)
  with False have "\<not> isspace (last (lstrip s))" by (simp add: last_lstrip)
  then show ?thesis by (simp add: rstrip_fixed_iff)
qed

lemma strip_rstrip: "strip (rstrip s) = strip s"
  by (simp add: strip_def rstrip_idem)

lemma strip_of_rstripped: "rstrip s = s \<Longrightarrow> strip s = lstrip s"
  by (simp add: strip_def)

lemma rstrip_takeWhile_lstrip:
  assumes "lstrip s \<noteq> []"
  shows "rstrip s = takeWhile isspace s @ rstrip (lstrip s)"
proof -
  have "rev s = rev (takeWhile isspace s @ lstrip s)"
    by (simp add: lstrip_def)
  then have split: "rev s = rev (lstrip s) @ rev (takeWhile isspace s)"
    by (simp only: rev_append)
  from assms have "hd (lstrip s) \<in> set (rev (lstrip s))" by simp
  moreover from assms have "\<not> isspace (hd (lstrip s))"
    unfolding lstrip_def by (rule hd_dropWhile)
  ultimately have "dropWhile isspace (rev (lstrip s) @ rev (takeWhile isspace s))
      = dropWhile isspace (rev (lstrip s)) @ rev (takeWhile isspace s)"
    by (rule dropWhile_append1)
  with split show ?thesis by (simp add: rstrip_def)
qed

lemma strip_lstrip: "strip (lstrip s) = strip s"
proof (cases "lstrip s = []")
  case True
  then have "\<forall>c\<in>set s. isspace c" by (simp only: lstrip_Nil_iff)
  then have "strip s = []" by (simp only: strip_Nil_iff)
  with True show ?thesis by simp
next
  case False
  have "lstrip (takeWhile isspace s @ rstrip (lstrip s)) = lstrip (rstrip (lstrip s))"
    unfolding lstrip_def by (rule dropWhile_append2) (auto dest: set_takeWhileD)
  with rstrip_takeWhile_lstrip [OF False] show ?thesis by (simp add: strip_def)
qed

lemma strip_idem: "strip (strip s) = strip s"
proof -
  have "strip (strip s) = strip (lstrip (rstrip s))" by (simp only: strip_def)
  also have "\<dots> = strip (rstrip s)" by (rule strip_lstrip)
  also have "\<dots> = strip s" by (rule strip_rstrip)
  finally show ?thesis .
qed

lemma isspace_NL: "isspace NL"
  by (simp add: isspace_def NL_def)


subsection \<open>Lines\<close>

lemma split_nl_not_Nil: "split_nl s \<noteq> []"
  by (cases s) (simp_all add: Let_def)

lemma join_nl_Cons: "join_nl (k # ks) = k @ concat (map ((#) NL) ks)"
  by (induction ks arbitrary: k) simp_all

lemma join_split_nl: "join_nl (split_nl s) = s"
proof (induction s)
  case Nil
  show ?case by simp
next
  case (Cons c s)
  obtain l ls where parts: "split_nl s = l # ls"
    using split_nl_not_Nil [of s] by (cases "split_nl s") auto
  with Cons have "l @ concat (map ((#) NL) ls) = s"
    by (simp add: join_nl_Cons)
  with parts show ?case
    by (simp add: join_nl_Cons Let_def)
qed

lemma split_nl_no_NL: "l \<in> set (split_nl s) \<Longrightarrow> NL \<notin> set l"
proof (induction s arbitrary: l)
  case Nil
  then show ?case by simp
next
  case (Cons c s)
  obtain k ks where parts: "split_nl s = k # ks"
    using split_nl_not_Nil [of s] by (cases "split_nl s") auto
  with Cons.IH have "NL \<notin> set k" "\<forall>x\<in>set ks. NL \<notin> set x" by simp_all
  with Cons.prems parts show ?case
    by (auto simp: Let_def split: if_splits)
qed

lemma split_nl_append_NL:
  "NL \<notin> set k \<Longrightarrow> split_nl (k @ NL # s) = k # split_nl s"
  by (induction k) (auto simp: Let_def)

lemma split_nl_single: "NL \<notin> set k \<Longrightarrow> split_nl k = [k]"
  by (induction k) (auto simp: Let_def)

lemma split_join_nl:
  "ks \<noteq> [] \<Longrightarrow> \<forall>k\<in>set ks. NL \<notin> set k \<Longrightarrow> split_nl (join_nl ks) = ks"
proof (induction ks rule: join_nl.induct)
  case 1
  then show ?case by simp
next
  case (2 x)
  then show ?case by (simp add: split_nl_single)
next
  case (3 x y ys)
  then show ?case by (simp add: split_nl_append_NL)
qed

lemma join_nl_Nil_iff: "join_nl ks = [] \<longleftrightarrow> ks = [] \<or> ks = [[]]"
  by (cases ks) (auto simp: join_nl_Cons)

lemma last_join_nl: "ks \<noteq> [] \<Longrightarrow> last ks \<noteq> [] \<Longrightarrow> last (join_nl ks) = last (last ks)"
  by (induction ks rule: join_nl.induct) (auto simp: join_nl_Cons)

subsection \<open>The cleanup loop\<close>

lemma cleanup_loop_acc: "cleanup_loop ls b acc = acc @ cleanup_loop ls b []"
proof (induction ls arbitrary: b acc)
  case Nil
  show ?case by simp
next
  case (Cons l ls)
  show ?case
    using Cons [of b "acc @ [rstrip l]"] Cons [of b "[rstrip l]"] Cons [of b acc]
      Cons [of "\<not> b" acc]
    by (cases b) simp_all
qed

lemma kept_line_rstrip:
  "strip l \<noteq> [] \<Longrightarrow> \<not> startswith (strip l) FENCE \<Longrightarrow> kept_line (rstrip l)"
  by (simp add: kept_line_def strip_rstrip rstrip_idem)

lemma kept_line_lstrip: "kept_line l \<Longrightarrow> kept_line (lstrip l)"
  by (simp add: kept_line_def strip_lstrip rstrip_lstrip)

lemma cleanup_loop_kept:
  "k \<in> set (cleanup_loop ls b []) \<Longrightarrow>
     kept_line k \<and> (\<exists>l\<in>set ls. k = rstrip l)"
proof (induction ls arbitrary: b)
  case Nil
  then show ?case by simp
next
  case (Cons l ls)
  show ?case
  proof (cases "startswith (strip l) FENCE")
    case True
    with Cons.prems have "k \<in> set (cleanup_loop ls (\<not> b) [])" by simp
    from Cons.IH [OF this] show ?thesis by auto
  next
    case False
    show ?thesis
    proof (cases "\<not> b \<and> strip l \<noteq> []")
      case True
      with False Cons.prems have "k \<in> set ([rstrip l] @ cleanup_loop ls b [])"
        using cleanup_loop_acc [of ls b "[rstrip l]"] by simp
      then consider "k = rstrip l" | "k \<in> set (cleanup_loop ls b [])" by auto
      then show ?thesis
      proof cases
        case 1
        with True False show ?thesis by (simp add: kept_line_rstrip)
      next
        case 2
        from Cons.IH [OF this] show ?thesis by auto
      qed
    next
      case nb: False
      with False Cons.prems have "k \<in> set (cleanup_loop ls b [])" by auto
      from Cons.IH [OF this] show ?thesis by auto
    qed
  qed
qed

lemma cleanup_loop_fixed:
  "\<forall>l\<in>set ls. kept_line l \<Longrightarrow> cleanup_loop ls False acc = acc @ ls"
  by (induction ls arbitrary: acc) (simp_all add: kept_line_def)


lemma kept_line_not_Nil: "kept_line l \<Longrightarrow> l \<noteq> []"
  by (auto simp: kept_line_def)

lemma kept_line_lstrip_not_Nil: "kept_line l \<Longrightarrow> lstrip l \<noteq> []"
  by (auto simp: kept_line_def strip_def)

lemma kept_line_last: "kept_line l \<Longrightarrow> \<not> isspace (last l)"
  using rstrip_fixed_iff [of l] by (auto simp: kept_line_def)

lemma rstrip_join_kept:
  assumes "ks \<noteq> []" and "\<forall>k\<in>set ks. kept_line k"
  shows "rstrip (join_nl ks) = join_nl ks"
proof -
  from assms have l: "kept_line (last ks)" by simp
  then have "last (join_nl ks) = last (last ks)"
    using assms(1) by (simp add: last_join_nl kept_line_not_Nil)
  with l have "\<not> isspace (last (join_nl ks))" by (simp add: kept_line_last)
  then show ?thesis by (simp add: rstrip_fixed_iff)
qed

lemma strip_join_kept:
  assumes "\<forall>k\<in>set (k0 # ks). kept_line k"
  shows "strip (join_nl (k0 # ks)) = join_nl (lstrip k0 # ks)"
proof -
  have "rstrip (join_nl (k0 # ks)) = join_nl (k0 # ks)"
    using assms by (intro rstrip_join_kept) simp_all
  then have "strip (join_nl (k0 # ks)) = lstrip (k0 @ concat (map ((#) NL) ks))"
    by (simp add: strip_def join_nl_Cons)
  also have "\<dots> = lstrip k0 @ concat (map ((#) NL) ks)"
    using assms by (intro lstrip_append) (simp add: kept_line_lstrip_not_Nil)
  finally show ?thesis by (simp add: join_nl_Cons)
qed

lemma strip_join_kept_fixed:
  assumes "\<forall>k\<in>set (k0 # ks). kept_line k" and "lstrip k0 = k0"
  shows "strip (join_nl (k0 # ks)) = join_nl (k0 # ks)"
  using strip_join_kept [OF assms(1)] assms(2) by simp

text \<open>The result of the cleanup, line by line.\<close>

lemma cleanup_lines:
  assumes "cleanup_loop (split_nl s) False [] = k0 # ks"
  shows "cleanup s = join_nl (lstrip k0 # ks)"
    and "\<forall>k\<in>set (lstrip k0 # ks). kept_line k \<and> NL \<notin> set k"
proof -
  have all: "\<forall>k\<in>set (k0 # ks). kept_line k \<and> NL \<notin> set k"
  proof
    fix k assume "k \<in> set (k0 # ks)"
    with assms have "k \<in> set (cleanup_loop (split_nl s) False [])" by simp
    from cleanup_loop_kept [OF this] obtain l
      where k: "kept_line k" "l \<in> set (split_nl s)" "k = rstrip l" by auto
    from k(2) have "NL \<notin> set l" by (rule split_nl_no_NL)
    with k(3) have "NL \<notin> set k" by (auto dest: set_rstrip)
    with k(1) show "kept_line k \<and> NL \<notin> set k" by simp
  qed
  then show "cleanup s = join_nl (lstrip k0 # ks)"
    using assms by (simp add: cleanup_def strip_join_kept)
  from all show "\<forall>k\<in>set (lstrip k0 # ks). kept_line k \<and> NL \<notin> set k"
    by (auto simp: kept_line_lstrip dest: set_lstrip)
qed

lemma cleanup_empty_loop:
  "cleanup_loop (split_nl s) False [] = [] \<Longrightarrow> cleanup s = []"
  by (simp add: cleanup_def)

lemma invariant_of_lines:
  assumes "\<forall>k\<in>set (k0 # ks). kept_line k \<and> NL \<notin> set k" and "lstrip k0 = k0"
  shows "post_cleanup_invariant (join_nl (k0 # ks))"
proof -
  have lines: "split_nl (join_nl (k0 # ks)) = k0 # ks"
    using assms(1) by (intro split_join_nl) simp_all
  have "join_nl (k0 # ks) \<noteq> []"
    using assms(1) by (auto simp: join_nl_Cons kept_line_not_Nil)
  moreover have "strip (join_nl (k0 # ks)) = join_nl (k0 # ks)"
    using assms by (intro strip_join_kept_fixed) simp_all
  ultimately show ?thesis
    unfolding post_cleanup_invariant_def lines using assms(1)
    by (simp add: kept_line_def)
qed

lemma cleanup_invariant: "cleanup s \<noteq> [] \<Longrightarrow> post_cleanup_invariant (cleanup s)"
proof (cases "cleanup_loop (split_nl s) False []")
  case Nil
  assume "cleanup s \<noteq> []"
  with Nil show ?thesis by (simp add: cleanup_empty_loop)
next
  case (Cons k0 ks)
  from cleanup_lines [OF Cons] show ?thesis
    by (simp add: invariant_of_lines lstrip_idem)
qed

lemma cleanup_fixed:
  assumes "post_cleanup_invariant m"
  shows "cleanup m = m"
proof -
  from assms have "\<forall>l\<in>set (split_nl m). kept_line l"
    by (simp add: post_cleanup_invariant_def kept_line_def)
  then have "cleanup_loop (split_nl m) False [] = split_nl m"
    using cleanup_loop_fixed [of "split_nl m" "[]"] by simp
  then have "cleanup m = strip m"
    by (simp add: cleanup_def join_split_nl)
  with assms show ?thesis by (simp add: post_cleanup_invariant_def)
qed

lemma cleanup_Nil: "cleanup [] = []"
  by (simp add: cleanup_def)

subsection \<open>The event loop\<close>

lemma cleanup_step_ok: "message_ok (cleanup_step cm)"
  using cleanup_invariant by (auto simp: message_ok_def cleanup_step_def split: option.splits)

lemma on_block_commit_message: "commit_message (foldl on_block st bs) = commit_message st"
proof (induction bs arbitrary: st)
  case Nil
  show ?case by simp
next
  case (Cons b bs)
  then show ?case by (cases b) simp_all
qed

lemma on_message_ok:
  "message_ok (commit_message st) \<Longrightarrow> message_ok (commit_message (on_message st x))"
  by (cases x) (simp_all add: on_block_commit_message cleanup_step_ok)

lemma foldl_on_message_ok:
  "message_ok (commit_message st) \<Longrightarrow> message_ok (commit_message (foldl on_message st msgs))"
  by (induction msgs arbitrary: st) (simp_all add: on_message_ok)

lemma generate_ok:
  assumes "generate_commit_message s = (Returned (Some m), errs)"
  shows "errs = [] \<and> (m = [] \<or> post_cleanup_invariant m)"
proof -
  obtain msgs e where s: "s = (msgs, e)" by (cases s)
  have "message_ok (commit_message (foldl on_message initial_state msgs))"
    by (rule foldl_on_message_ok) (simp add: initial_state_def message_ok_def)
  with assms s show ?thesis
    by (cases e) (auto simp: message_ok_def)
qed

lemma generate_final_result:
  "generate_commit_message (msgs @ [ResultMessage False], Exhausted) =
     (Returned (cleanup_step (select_candidate
        (commit_message (foldl on_message initial_state msgs)) (accumulated msgs))), [])"
  by (simp add: accumulated_def)

subsection \<open>Dispatch\<close>

lemma main_with_message:
  assumes "fst (generate_commit_message s) = Returned (Some m)" and "m \<noteq> []"
  shows "main a w s = dispatch a w m"
proof -
  obtain errs where g: "generate_commit_message s = (Returned (Some m), errs)"
    using assms(1) by (cases "generate_commit_message s") simp
  with generate_ok [OF g] assms(2) show ?thesis
    by (simp add: main_def split: prod.splits)
qed

lemma main_without_message:
  assumes "fst (generate_commit_message s) = Returned None \<or>
           fst (generate_commit_message s) = Returned (Some [])"
  shows "main a w s = (1, snd (generate_commit_message s) @ [ErrFailedToGenerate])"
  using assms by (cases "generate_commit_message s") (auto simp: main_def)

lemma main_interrupted:
  assumes "fst (generate_commit_message s) = Interrupted"
  shows "main a w s = (130, [ErrInterrupted])"
proof -
  obtain msgs e where s: "s = (msgs, e)" by (cases s)
  with assms show ?thesis by (cases e) (simp_all add: main_def)
qed

lemma copy_to_clipboard_acted:
  "e \<in> set (copy_to_clipboard w m) \<Longrightarrow> acted_on e = Some m' \<Longrightarrow> m' = m"
  by (auto simp: copy_to_clipboard_def split: if_splits)

lemma confirm_and_commit_acted:
  "e \<in> set (snd (confirm_and_commit w m)) \<Longrightarrow> acted_on e = Some m' \<Longrightarrow> m' = m"
  by (auto simp: confirm_and_commit_def split: input_result.splits run_result.splits if_splits)

lemma dispatch_acted:
  "e \<in> set (snd (dispatch a w m)) \<Longrightarrow> acted_on e = Some m' \<Longrightarrow> m' = m"
proof (cases "preview a")
  case True
  then show "e \<in> set (snd (dispatch a w m)) \<Longrightarrow> acted_on e = Some m' \<Longrightarrow> m' = m"
    by (auto simp: dispatch_def)
next
  case False
  assume e: "e \<in> set (snd (dispatch a w m))" and m': "acted_on e = Some m'"
  obtain code effs where c: "confirm_and_commit w m = (code, effs)"
    by (cases "confirm_and_commit w m")
  from e False c have "e = ShowMessage m \<or> e \<in> set (copy_to_clipboard w m)
      \<or> e \<in> set (snd (confirm_and_commit w m)) \<or> e = SuggestCommand m"
    by (auto simp: dispatch_def Let_def split: if_splits)
  with m' show "m' = m"
    by (auto dest: copy_to_clipboard_acted confirm_and_commit_acted)
qed

lemma lower_char_y: "lower_char c = CHR ''y'' \<longleftrightarrow> c = CHR ''y'' \<or> c = CHR ''Y''"
proof
  assume l: "lower_char c = CHR ''y''"
  define n where "n = (of_char c :: nat)"
  from l have l': "(if (65 \<le> n \<and> n \<le> 90) \<or> (192 \<le> n \<and> n \<le> 222 \<and> n \<noteq> 215)
      then char_of (n + 32) else c) = CHR ''y''"
    unfolding lower_char_def Let_def n_def .
  show "c = CHR ''y'' \<or> c = CHR ''Y''"
  proof (cases "(65 \<le> n \<and> n \<le> 90) \<or> (192 \<le> n \<and> n \<le> 222 \<and> n \<noteq> 215)")
    case True
    with l' have "char_of (n + 32) = CHR ''y''"
      by (simp only: if_True)
    then have "(n + 32) mod 256 = 121"
      by (simp add: char_of_eq_iff take_bit_eq_mod)
    with True have "n = 89" by auto
    then have "(of_char c :: nat) = of_char CHR ''Y''" by (simp add: n_def)
    then have "c = CHR ''Y''" by (simp only: of_char_eq_iff)
    then show ?thesis by simp
  next
    case False
    with l' have "c = CHR ''y''" by (simp only: if_False)
    then show ?thesis by simp
  qed
next
  assume "c = CHR ''y'' \<or> c = CHR ''Y''"
  then show "lower_char c = CHR ''y''"
    by (auto simp: lower_char_def Let_def char_of_eq_iff)
qed

lemma lower_y: "lower r = ''y'' \<longleftrightarrow> r = ''y'' \<or> r = ''Y''"
  by (cases r) (auto simp: lower_def lower_char_y)


lemma example_session_generate:
  "generate_commit_message example_session = (Returned (Some example_message), [])"
  by code_simp

lemma example_message_not_Nil: "example_message \<noteq> []"
  by (simp add: example_message_def)

lemma no_commit_in_clipboard: "GitCommit m' \<notin> set (copy_to_clipboard w m)"
  by (simp add: copy_to_clipboard_def)

lemma dispatch_commit:
  "\<not> preview a \<Longrightarrow> commit a \<Longrightarrow>
     dispatch a w m =
       (fst (confirm_and_commit w m),
        ShowMessage m # (if copy a then copy_to_clipboard w m else []) @
          snd (confirm_and_commit w m))"
  by (simp add: dispatch_def Let_def split: prod.splits)

lemma confirm_typed:
  "answer w = Typed r \<Longrightarrow>
     confirm_and_commit w m =
       (if lower r \<noteq> ''y'' then (0, [AskConfirm, CommitCancelled])
        else (case git_result w of
                RunOk \<Rightarrow> (0, [AskConfirm, GitCommit m, Committed])
              | CalledProcessError \<Rightarrow> (1, [AskConfirm, GitCommit m, CommitFailed])
              | RunRaises \<Rightarrow> (1, [AskConfirm, GitCommit m, CommitUnexpected])))"
  by (simp add: confirm_and_commit_def)

lemma interrupted_session_generate:
  "generate_commit_message interrupted_session = (Interrupted, [])"
  by (simp add: interrupted_session_def)

lemma dispatch_preview: "preview a \<Longrightarrow> dispatch a w m = (0, [ShowMessage m, PreviewComplete])"
  by (simp add: dispatch_def)

lemma dispatch_suggest:
  "\<not> preview a \<Longrightarrow> \<not> commit a \<Longrightarrow>
     dispatch a w m =
       (0, ShowMessage m # (if copy a then copy_to_clipboard w m else []) @ [SuggestCommand m])"
  by (simp add: dispatch_def Let_def)

lemma failing_session_end: "snd (failing_session e) = e"
  by (simp add: failing_session_def)

lemma interrupted_session_end: "snd interrupted_session = KeyboardInterrupt"
  by (simp add: interrupted_session_def)

lemma example_session_message:
  "fst (generate_commit_message example_session) = Returned (Some example_message)"
  by (simp add: example_session_generate)

lemma generate_errs:
  "e \<in> set (snd (generate_commit_message s)) \<Longrightarrow> \<not> side_effect e \<and> acted_on e = None"
proof -
  obtain msgs x where s: "s = (msgs, x)" by (cases s)
  assume "e \<in> set (snd (generate_commit_message s))"
  with s show ?thesis by (cases x) auto
qed

lemma generate_cases:
  obtains "fst (generate_commit_message s) = Interrupted"
  | "fst (generate_commit_message s) = Returned None \<or>
     fst (generate_commit_message s) = Returned (Some [])"
  | m where "fst (generate_commit_message s) = Returned (Some m)" "m \<noteq> []"
proof (cases "fst (generate_commit_message s)")
  case (Returned cm)
  then show ?thesis using that by (cases cm) auto
next
  case Interrupted
  then show ?thesis using that by simp
qed

lemma replace_char:
  "replace [q] new s = concat (map (\<lambda>c. if c = q then new else [c]) s)"
  by (induction s) auto

lemma escaped_message_append:
  "escaped_message (u @ v) = escaped_message u @ escaped_message v"
  by (simp add: escaped_message_def replace_char)

subsection \<open>The marker\<close>

lemma split_once_here:
  "sep \<noteq> [] \<Longrightarrow> split_once sep (sep @ suf) = [[], suf]"
  by (cases sep) simp_all

lemma split_once_first:
  assumes "sep \<noteq> []"
    and "\<forall>i<length pre. \<not> prefix sep (drop i (pre @ sep @ suf))"
  shows "split_once sep (pre @ sep @ suf) = [pre, suf]"
  using assms(2)
proof (induction pre)
  case Nil
  from assms(1) show ?case by (simp add: split_once_here)
next
  case (Cons p pre)
  from Cons.prems have "\<not> prefix sep (drop 0 ((p # pre) @ sep @ suf))" by blast
  then have here: "\<not> prefix sep (p # pre @ sep @ suf)" by simp
  have "\<forall>i<length pre. \<not> prefix sep (drop i (pre @ sep @ suf))"
  proof (intro allI impI)
    fix i assume "i < length pre"
    then have "Suc i < length (p # pre)" by simp
    with Cons.prems have "\<not> prefix sep (drop (Suc i) ((p # pre) @ sep @ suf))" by blast
    then show "\<not> prefix sep (drop i (pre @ sep @ suf))" by simp
  qed
  then have "split_once sep (pre @ sep @ suf) = [pre, suf]" by (rule Cons.IH)
  with here show ?case by simp
qed

lemma contains_here: "contains sep (sep @ suf)"
proof (cases "sep @ suf")
  case Nil
  then show ?thesis by simp
next
  case (Cons c cs)
  have "prefix sep (sep @ suf)" by simp
  with Cons show ?thesis by simp
qed

lemma contains_append: "contains sep (pre @ sep @ suf)"
  by (induction pre) (simp_all add: contains_here)

lemma contains_first:
  "contains sep s \<Longrightarrow>
     \<exists>pre suf. s = pre @ sep @ suf \<and> (\<forall>i<length pre. \<not> prefix sep (drop i s))"
proof (induction s)
  case Nil
  then show ?case by simp
next
  case (Cons c cs)
  show ?case
  proof (cases "prefix sep (c # cs)")
    case True
    then obtain suf where "c # cs = [] @ sep @ suf" by (auto simp: prefix_def)
    then show ?thesis by (intro exI [of _ "[]"] exI [of _ suf]) simp
  next
    case False
    with Cons.prems have "contains sep cs" by simp
    from Cons.IH [OF this] obtain pre suf
      where cs: "cs = pre @ sep @ suf" and first: "\<forall>i<length pre. \<not> prefix sep (drop i cs)"
      by blast
    have "\<forall>i<length (c # pre). \<not> prefix sep (drop i (c # cs))"
    proof (intro allI impI)
      fix i assume i: "i < length (c # pre)"
      show "\<not> prefix sep (drop i (c # cs))"
      proof (cases i)
        case 0
        with False show ?thesis by simp
      next
        case (Suc j)
        with i first show ?thesis by simp
      qed
    qed
    with cs show ?thesis
      by (intro exI [of _ "c # pre"] exI [of _ suf]) simp
  qed
qed

lemma MARKER_not_Nil: "MARKER \<noteq> []"
  by (simp add: MARKER_def)

lemma select_candidate_marker:
  assumes "join_nl log = pre @ MARKER @ suf"
    and "\<forall>i<length pre. \<not> prefix MARKER (drop i (join_nl log))"
  shows "select_candidate prev log = Some (strip suf)"
proof -
  have "contains MARKER (join_nl log)"
    unfolding assms(1) by (rule contains_append)
  moreover have "split_once MARKER (join_nl log) = [pre, suf]"
    using assms(2) unfolding assms(1) by (rule split_once_first [OF MARKER_not_Nil])
  ultimately show ?thesis by (simp add: select_candidate_def)
qed

subsection \<open>The fallback\<close>

lemma fallback_scan_none:
  "\<forall>t\<in>set ts. \<not> meaningful (strip t) \<Longrightarrow> fallback_scan ts cm = cm"
  by (induction ts) simp_all

lemma fallback_scan_found:
  "\<forall>t\<in>set ys. \<not> meaningful (strip t) \<Longrightarrow> meaningful (strip e) \<Longrightarrow>
     fallback_scan (ys @ e # xs) cm = Some (strip e)"
  by (induction ys) simp_all

lemma prefix_map_iff: "prefix p (map f t) \<longleftrightarrow> (\<exists>u. prefix u t \<and> map f u = p)"
proof
  assume "prefix p (map f t)"
  then obtain r where "map f t = p @ r" by (auto simp: prefix_def)
  then have "map f (take (length p) t) = p"
    by (metis append_eq_conv_conj take_map)
  moreover have "prefix (take (length p) t) t" by (rule take_is_prefix)
  ultimately show "\<exists>u. prefix u t \<and> map f u = p" by blast
next
  assume "\<exists>u. prefix u t \<and> map f u = p"
  then show "prefix p (map f t)" by (auto simp: map_mono_prefix)
qed

subsection \<open>The surviving lines\<close>

lemma survives_0:
  "survives b (l # ls) 0 \<longleftrightarrow> \<not> is_fence_line l \<and> \<not> b \<and> strip l \<noteq> []"
  by (auto simp: survives_def fences_before_def)

lemma survives_Suc:
  "survives b (l # ls) (Suc i) \<longleftrightarrow> survives (if is_fence_line l then \<not> b else b) ls i"
  by (auto simp: survives_def fences_before_def)

lemma surviving_lines_Nil: "surviving_lines b [] = []"
  by (simp add: surviving_lines_def)

lemma surviving_lines_Cons:
  "surviving_lines b (l # ls) =
     (if survives b (l # ls) 0 then [l] else []) @
     surviving_lines (if is_fence_line l then \<not> b else b) ls"
proof -
  have "[0..<Suc (length ls)] = 0 # [Suc 0..<Suc (length ls)]"
    by (rule upt_conv_Cons) simp
  then have "[0..<length (l # ls)] = 0 # map Suc [0..<length ls]"
    by (simp only: length_Cons map_Suc_upt)
  moreover have "survives b (l # ls) \<circ> Suc = survives (if is_fence_line l then \<not> b else b) ls"
    by (rule ext) (simp only: comp_def survives_Suc)
  moreover have "map ((!) (l # ls)) (map Suc is) = map ((!) ls) is" for "is"
    by simp
  ultimately show ?thesis
    by (simp add: surviving_lines_def filter_map del: upt_Suc)
qed

lemma cleanup_loop_surviving:
  "cleanup_loop ls b [] = map rstrip (surviving_lines b ls)"
proof (induction ls arbitrary: b)
  case Nil
  show ?case by (simp add: surviving_lines_Nil)
next
  case (Cons l ls)
  show ?case
  proof (cases "is_fence_line l")
    case True
    then have "cleanup_loop (l # ls) b [] = cleanup_loop ls (\<not> b) []"
      by (simp add: is_fence_line_def)
    with True Cons [of "\<not> b"] show ?thesis
      by (simp add: surviving_lines_Cons survives_0)
  next
    case False
    show ?thesis
    proof (cases "\<not> b \<and> strip l \<noteq> []")
      case True
      with False have "cleanup_loop (l # ls) b [] = cleanup_loop ls b [rstrip l]"
        by (simp add: is_fence_line_def)
      also have "\<dots> = rstrip l # cleanup_loop ls b []"
        using cleanup_loop_acc [of ls b "[rstrip l]"] by simp
      finally show ?thesis
        using True False Cons [of b] by (simp add: surviving_lines_Cons survives_0)
    next
      case skip: False
      with False have "cleanup_loop (l # ls) b [] = cleanup_loop ls b []"
        by (auto simp: is_fence_line_def)
      with skip False Cons [of b] show ?thesis
        by (auto simp: surviving_lines_Cons survives_0)
    qed
  qed
qed

section \<open>The properties\<close>

text \<open>
  C1. When the joined log is \<open>pre @ MARKER @ suf\<close> and no occurrence of the marker starts
  inside \<open>pre\<close> (this is the first occurrence), the candidate is \<open>suf\<close> trimmed, whatever
  follows, further markers included, and whatever \<^verbatim>\<open>commit_message\<close> held before. Every log
  whose joined text contains the marker has such a first occurrence.
\<close>

theorem marker_extraction:
  "(join_nl log = pre @ MARKER @ suf \<and>
      (\<forall>i<length pre. \<not> prefix MARKER (drop i (join_nl log))) \<longrightarrow>
    select_candidate prev log = Some (strip suf)) \<and>
   (contains MARKER (join_nl log) \<longrightarrow>
      (\<exists>pre suf. join_nl log = pre @ MARKER @ suf \<and>
         (\<forall>i<length pre. \<not> prefix MARKER (drop i (join_nl log)))))"
  using select_candidate_marker [of log pre suf prev] contains_first [of MARKER "join_nl log"]
  by blast

theorem marker_extraction_witness:
  "contains MARKER (join_nl marked_log) \<and>
   select_candidate None marked_log = Some ''a COMMIT_MESSAGE: b''"
proof -
  have blob: "join_nl marked_log = (''ok'' @ [NL]) @ MARKER @ '' a COMMIT_MESSAGE: b ''"
    by (simp add: marked_log_def MARKER_def)
  have first: "\<forall>i<length (''ok'' @ [NL]). \<not> prefix MARKER (drop i (join_nl marked_log))"
    by (simp add: marked_log_def MARKER_def NL_def All_less_Suc)
  have "strip '' a COMMIT_MESSAGE: b '' = ''a COMMIT_MESSAGE: b''"
    by code_simp
  moreover have "contains MARKER (join_nl marked_log)"
    by code_simp
  ultimately show ?thesis
    using marker_extraction [of marked_log "''ok'' @ [NL]" "'' a COMMIT_MESSAGE: b ''" None]
      blob first
    by simp
qed

text \<open>
  C2. When the joined log does not contain the marker, the candidate (starting from no
  message) is absent if no entry is meaningful after trimming, which includes the empty
  log; otherwise it is the last meaningful entry, trimmed: the first one met when scanning
  from the end. A text is meaningful when it is not empty and no prefix of it equals, up
  to case, one of the six filler prefixes.
\<close>

theorem fallback_extraction:
  assumes "\<not> contains MARKER (join_nl log)"
  shows "((\<forall>e\<in>set log. \<not> meaningful (strip e)) \<longrightarrow> select_candidate None log = None) \<and>
         (\<forall>xs e ys. log = xs @ e # ys \<and> meaningful (strip e) \<and>
              (\<forall>y\<in>set ys. \<not> meaningful (strip y)) \<longrightarrow>
            select_candidate None log = Some (strip e)) \<and>
         (\<forall>t. meaningful t \<longleftrightarrow>
            t \<noteq> [] \<and>
            \<not> (\<exists>p\<in>set [''let me'', ''i'' @ [QUOTE] @ ''ll'', ''i will'', ''now i'', ''first'',
                  ''i can see'']. \<exists>u. prefix u t \<and> lower u = p))"
proof (intro conjI allI impI)
  assume "\<forall>e\<in>set log. \<not> meaningful (strip e)"
  then have "fallback_scan (rev log) None = None"
    by (intro fallback_scan_none) simp
  with assms show "select_candidate None log = None"
    by (simp add: select_candidate_def)
next
  fix xs e ys
  assume "log = xs @ e # ys \<and> meaningful (strip e) \<and> (\<forall>y\<in>set ys. \<not> meaningful (strip y))"
  then have "rev log = rev ys @ e # rev xs" "meaningful (strip e)"
    "\<forall>y\<in>set (rev ys). \<not> meaningful (strip y)"
    by simp_all
  then have "fallback_scan (rev log) None = Some (strip e)"
    by (simp only: fallback_scan_found)
  with assms show "select_candidate None log = Some (strip e)"
    by (simp add: select_candidate_def)
next
  fix t
  show "meaningful t \<longleftrightarrow>
      t \<noteq> [] \<and>
      \<not> (\<exists>p\<in>set [''let me'', ''i'' @ [QUOTE] @ ''ll'', ''i will'', ''now i'', ''first'',
            ''i can see'']. \<exists>u. prefix u t \<and> lower u = p)"
    unfolding meaningful_def list_ex_iff startswith_def lower_def prefix_map_iff
      FILLER_PREFIXES_def ..
qed

theorem fallback_extraction_witness:
  "select_candidate None [''feat: x'', ''Let me look'', []] = Some ''feat: x'' \<and>
   select_candidate None [''First, the diff'', ''I WILL check''] = None"
proof -
  have "\<not> contains MARKER (join_nl [''feat: x'', ''Let me look'', []])"
    by code_simp
  from fallback_extraction [OF this]
  have "[''feat: x'', ''Let me look'', []] = [] @ ''feat: x'' # [''Let me look'', []] \<and>
      meaningful (strip ''feat: x'') \<and>
      (\<forall>y\<in>set [''Let me look'', []]. \<not> meaningful (strip y)) \<longrightarrow>
      select_candidate None [''feat: x'', ''Let me look'', []] = Some (strip ''feat: x'')"
    by blast
  moreover have "meaningful (strip ''feat: x'')" "\<not> meaningful (strip ''Let me look'')"
    "\<not> meaningful (strip [])" "strip ''feat: x'' = ''feat: x''"
    by code_simp+
  ultimately have found: "select_candidate None [''feat: x'', ''Let me look'', []]
      = Some ''feat: x''"
    by simp
  have "\<not> contains MARKER (join_nl [''First, the diff'', ''I WILL check''])"
    by code_simp
  from fallback_extraction [OF this]
  have "(\<forall>e\<in>set [''First, the diff'', ''I WILL check'']. \<not> meaningful (strip e)) \<longrightarrow>
      select_candidate None [''First, the diff'', ''I WILL check''] = None"
    by blast
  moreover have "\<not> meaningful (strip ''First, the diff'')" "\<not> meaningful (strip ''I WILL check'')"
    by code_simp+
  ultimately have "select_candidate None [''First, the diff'', ''I WILL check''] = None"
    by simp
  with found show ?thesis by simp
qed

text \<open>
  C3. The cleanup loop computes what the specification words: the candidate is split into
  lines; a line survives when it is not a fence line, an even number of fence lines
  precedes it (the flag is off) and it is not blank; the survivors are trimmed on the
  right, joined with line feeds, and the whole is trimmed. The lines of the result are
  the surviving lines, trimmed, so no line between fences reaches the message. The event
  loop applies the cleanup to every non-empty candidate.
\<close>

theorem cleanup_refines_spec:
  "cleanup s = cleanup_spec s \<and>
   split_nl (cleanup s) =
     (case surviving_lines False (split_nl s) of
        [] \<Rightarrow> [[]]
      | l # ls \<Rightarrow> strip l # map rstrip ls) \<and>
   (c \<noteq> [] \<longrightarrow> cleanup_step (Some c) = Some (cleanup_spec c))"
proof (intro conjI impI)
  show spec: "cleanup s = cleanup_spec s" for s
    by (simp add: cleanup_def cleanup_spec_def cleanup_loop_surviving)
  show "split_nl (cleanup s) =
     (case surviving_lines False (split_nl s) of [] \<Rightarrow> [[]] | l # ls \<Rightarrow> strip l # map rstrip ls)"
  proof (cases "surviving_lines False (split_nl s)")
    case Nil
    then have "cleanup_loop (split_nl s) False [] = []"
      by (simp add: cleanup_loop_surviving)
    then have "cleanup s = []" by (rule cleanup_empty_loop)
    with Nil show ?thesis by simp
  next
    case (Cons l ls)
    then have loop: "cleanup_loop (split_nl s) False [] = rstrip l # map rstrip ls"
      by (simp add: cleanup_loop_surviving)
    from cleanup_lines [OF loop]
    have "split_nl (cleanup s) = lstrip (rstrip l) # map rstrip ls"
      by (simp add: split_join_nl)
    with Cons show ?thesis by (simp add: strip_def)
  qed
  assume "c \<noteq> []"
  then show "cleanup_step (Some c) = Some (cleanup_spec c)"
    by (simp add: cleanup_step_def spec)
qed

theorem cleanup_refines_spec_witness:
  "cleanup fenced_text = ''intro'' @ [NL] @ '' tail'' \<and>
   cleanup_step (Some fenced_text) = Some (''intro'' @ [NL] @ '' tail'')"
proof -
  have "cleanup_spec fenced_text = ''intro'' @ [NL] @ '' tail''"
    by code_simp
  moreover have "fenced_text \<noteq> []"
    by (simp add: fenced_text_def)
  ultimately show ?thesis
    using cleanup_refines_spec [of fenced_text fenced_text] by simp
qed

text \<open>
  C4. When nothing follows the first marker, or only text the cleanup removes entirely, the
  run of a session that ends with a successful result reports the failure to generate a
  message and exits with code 1, exactly as the run of a session without any text does.
\<close>

theorem empty_after_marker_fails:
  assumes "join_nl (accumulated msgs) = pre @ MARKER @ suf"
    and "\<forall>i<length pre. \<not> prefix MARKER (drop i (join_nl (accumulated msgs)))"
    and "strip suf = [] \<or> cleanup (strip suf) = []"
  shows "main a w (msgs @ [ResultMessage False], Exhausted) = (1, [ErrFailedToGenerate]) \<and>
         main a w (msgs @ [ResultMessage False], Exhausted)
           = main a w ([ResultMessage False], Exhausted)"
proof -
  have "select_candidate (commit_message (foldl on_message initial_state msgs))
      (accumulated msgs) = Some (strip suf)"
    using assms(1,2) by (rule select_candidate_marker)
  moreover from assms(3) have "cleanup_step (Some (strip suf)) = Some []"
    by (auto simp: cleanup_step_def)
  ultimately have "generate_commit_message (msgs @ [ResultMessage False], Exhausted)
      = (Returned (Some []), [])"
    by (simp only: generate_final_result)
  then have "main a w (msgs @ [ResultMessage False], Exhausted) = (1, [ErrFailedToGenerate])"
    by (simp add: main_without_message)
  moreover have "main a w ([ResultMessage False], Exhausted) = (1, [ErrFailedToGenerate])"
    by code_simp
  ultimately show ?thesis by simp
qed

theorem empty_after_marker_fails_witness:
  "main (example_args True True False) (example_world (Typed ''y'') RunOk)
     (fenced_session_messages @ [ResultMessage False], Exhausted) = (1, [ErrFailedToGenerate])"
proof -
  have log: "accumulated fenced_session_messages
      = [''Let me check.'' @ [NL] @ ''COMMIT_MESSAGE:'' @ [NL] @
          FENCE @ [NL] @ ''feat: add X'' @ [NL] @ ''- detail'' @ [NL] @ FENCE]"
    by code_simp
  have blob: "join_nl (accumulated fenced_session_messages)
      = (''Let me check.'' @ [NL]) @ MARKER @
          ([NL] @ FENCE @ [NL] @ ''feat: add X'' @ [NL] @ ''- detail'' @ [NL] @ FENCE)"
    unfolding log by (simp add: MARKER_def)
  have first: "\<forall>i<length (''Let me check.'' @ [NL]).
      \<not> prefix MARKER (drop i (join_nl (accumulated fenced_session_messages)))"
    unfolding log by (simp add: MARKER_def NL_def All_less_Suc)
  have gone: "strip ([NL] @ FENCE @ [NL] @ ''feat: add X'' @ [NL] @ ''- detail'' @ [NL] @ FENCE) = []
      \<or> cleanup (strip ([NL] @ FENCE @ [NL] @ ''feat: add X'' @ [NL] @ ''- detail'' @ [NL] @ FENCE))
        = []"
    by code_simp
  from empty_after_marker_fails [OF blob first gone] show ?thesis by simp
qed

text \<open>
  C6. At the confirmation prompt (\<open>commit\<close> set, \<open>preview\<close> not set, a message was
  produced and the operator typed \<open>r\<close>), \<^verbatim>\<open>git commit\<close> is invoked if and only if \<open>r\<close> is
  \<^verbatim>\<open>y\<close> or \<^verbatim>\<open>Y\<close>; any other answer ends the run with exit code 0, the commit
  cancelled and git never called.
\<close>

theorem confirmation_gate:
  assumes "fst (generate_commit_message s) = Returned (Some m)" and "m \<noteq> []"
    and "\<not> preview a" and "commit a" and "answer w = Typed r"
  shows "((\<exists>m'. GitCommit m' \<in> set (snd (main a w s))) \<longleftrightarrow> r = ''y'' \<or> r = ''Y'') \<and>
         (r \<noteq> ''y'' \<and> r \<noteq> ''Y'' \<longrightarrow> main a w s =
            (0, ShowMessage m # (if copy a then copy_to_clipboard w m else []) @
                [AskConfirm, CommitCancelled]))"
proof -
  from assms(1,2) have "main a w s = dispatch a w m" by (rule main_with_message)
  with assms(3,4) have m: "main a w s =
      (fst (confirm_and_commit w m),
       ShowMessage m # (if copy a then copy_to_clipboard w m else []) @
         snd (confirm_and_commit w m))"
    by (simp add: dispatch_commit)
  show ?thesis
  proof (cases "lower r = ''y''")
    case True
    with assms(5) have "GitCommit m \<in> set (snd (confirm_and_commit w m))"
      by (simp add: confirm_typed split: run_result.splits)
    with m have "\<exists>m'. GitCommit m' \<in> set (snd (main a w s))" by auto
    with True show ?thesis by (auto simp: lower_y)
  next
    case False
    with assms(5) have "confirm_and_commit w m = (0, [AskConfirm, CommitCancelled])"
      by (simp add: confirm_typed)
    with m have "main a w s =
        (0, ShowMessage m # (if copy a then copy_to_clipboard w m else []) @
            [AskConfirm, CommitCancelled])"
      by simp
    with False show ?thesis by (auto simp: lower_y no_commit_in_clipboard)
  qed
qed

theorem confirmation_gate_witness:
  "main (example_args True False False) (example_world (Typed ''Y'') RunOk) example_session
     = (0, [ShowMessage example_message, AskConfirm, GitCommit example_message, Committed]) \<and>
   main (example_args True False False) (example_world (Typed ''yes'') RunOk) example_session
     = (0, [ShowMessage example_message, AskConfirm, CommitCancelled])"
proof -
  have g: "fst (generate_commit_message example_session) = Returned (Some example_message)"
    by (simp add: example_session_generate)
  have "main (example_args True False False) (example_world (Typed ''yes'') RunOk) example_session
     = (0, [ShowMessage example_message, AskConfirm, CommitCancelled])"
    using confirmation_gate [OF g example_message_not_Nil,
        of "example_args True False False" "example_world (Typed ''yes'') RunOk" "''yes''"]
    by (simp add: example_args_def example_world_def)
  moreover have "\<exists>m'. GitCommit m' \<in> set (snd
      (main (example_args True False False) (example_world (Typed ''Y'') RunOk) example_session))"
    using confirmation_gate [OF g example_message_not_Nil,
        of "example_args True False False" "example_world (Typed ''Y'') RunOk" "''Y''"]
    by (simp add: example_args_def example_world_def)
  moreover have "main (example_args True False False) (example_world (Typed ''Y'') RunOk)
      example_session
     = (0, [ShowMessage example_message, AskConfirm, GitCommit example_message, Committed])"
    by code_simp
  ultimately show ?thesis by simp
qed

text \<open>
  C5. The exit code of the process: 130 when the operator interrupts the agent session;
  every failure of the session (agent not found, process error, another exception) makes
  \<^verbatim>\<open>generate_commit_message\<close> return no message, and no message or an empty one gives
  1; with a message, the preview, the suggestion, a declined confirmation and a
  successful commit give 0, and a failing \<^verbatim>\<open>git commit\<close> gives 1.
\<close>

theorem exit_codes:
  "(snd s = KeyboardInterrupt \<longrightarrow> fst (main a w s) = 130) \<and>
   (snd s = CLINotFoundError \<or> snd s = ProcessError \<or> snd s = OtherException \<longrightarrow>
      fst (generate_commit_message s) = Returned None) \<and>
   (fst (generate_commit_message s) = Returned None \<or>
    fst (generate_commit_message s) = Returned (Some []) \<longrightarrow> fst (main a w s) = 1) \<and>
   (fst (generate_commit_message s) = Returned (Some m) \<and> m \<noteq> [] \<longrightarrow>
      (preview a \<longrightarrow> fst (main a w s) = 0) \<and>
      (\<not> preview a \<and> \<not> commit a \<longrightarrow> fst (main a w s) = 0) \<and>
      (\<not> preview a \<and> commit a \<and> answer w = Typed r \<and> lower r \<noteq> ''y'' \<longrightarrow>
         fst (main a w s) = 0) \<and>
      (\<not> preview a \<and> commit a \<and> answer w = Typed r \<and> lower r = ''y'' \<longrightarrow>
         fst (main a w s) = (if git_result w = RunOk then 0 else 1)))"
proof (intro conjI impI)
  assume "snd s = KeyboardInterrupt"
  then have "fst (generate_commit_message s) = Interrupted" by (cases s) simp
  then show "fst (main a w s) = 130" by (simp add: main_interrupted)
next
  assume "snd s = CLINotFoundError \<or> snd s = ProcessError \<or> snd s = OtherException"
  then show "fst (generate_commit_message s) = Returned None" by (cases s) auto
next
  assume "fst (generate_commit_message s) = Returned None \<or>
    fst (generate_commit_message s) = Returned (Some [])"
  then show "fst (main a w s) = 1" by (simp add: main_without_message)
next
  assume "fst (generate_commit_message s) = Returned (Some m) \<and> m \<noteq> []"
  then have m: "main a w s = dispatch a w m" by (simp add: main_with_message)
  { assume "preview a"
    with m show "fst (main a w s) = 0" by (simp add: dispatch_preview) }
  { assume "\<not> preview a \<and> \<not> commit a"
    with m show "fst (main a w s) = 0" by (simp add: dispatch_suggest) }
  { assume "\<not> preview a \<and> commit a \<and> answer w = Typed r \<and> lower r \<noteq> ''y''"
    with m show "fst (main a w s) = 0" by (simp add: dispatch_commit confirm_typed) }
  { assume "\<not> preview a \<and> commit a \<and> answer w = Typed r \<and> lower r = ''y''"
    with m show "fst (main a w s) = (if git_result w = RunOk then 0 else 1)"
      by (cases "git_result w") (simp_all add: dispatch_commit confirm_typed) }
qed

theorem exit_codes_witness:
  "fst (main (example_args False False False) (example_world (Typed ''y'') RunOk)
          interrupted_session) = 130 \<and>
   fst (main (example_args False False False) (example_world (Typed ''y'') RunOk)
          (failing_session ProcessError)) = 1 \<and>
   fst (main (example_args False False True) (example_world (Typed ''y'') RunOk)
          example_session) = 0 \<and>
   fst (main (example_args False True False) (example_world (Typed ''y'') RunOk)
          example_session) = 0 \<and>
   fst (main (example_args True False False) (example_world (Typed ''no'') RunOk)
          example_session) = 0 \<and>
   fst (main (example_args True False False) (example_world (Typed ''y'') RunOk)
          example_session) = 0 \<and>
   fst (main (example_args True False False) (example_world (Typed ''y'') CalledProcessError)
          example_session) = 1"
proof (intro conjI)
  show "fst (main (example_args False False False) (example_world (Typed ''y'') RunOk)
          interrupted_session) = 130"
    using exit_codes [where s = interrupted_session] by (simp add: interrupted_session_end)
  have "fst (generate_commit_message (failing_session ProcessError)) = Returned None"
    using exit_codes [where s = "failing_session ProcessError"] by (simp add: failing_session_end)
  then show "fst (main (example_args False False False) (example_world (Typed ''y'') RunOk)
          (failing_session ProcessError)) = 1"
    using exit_codes [where s = "failing_session ProcessError"] by simp
  note ok = example_session_message example_message_not_Nil
  show "fst (main (example_args False False True) (example_world (Typed ''y'') RunOk)
          example_session) = 0"
    using exit_codes [where s = example_session and m = example_message
        and a = "example_args False False True"] ok
    by (simp add: example_args_def)
  show "fst (main (example_args False True False) (example_world (Typed ''y'') RunOk)
          example_session) = 0"
    using exit_codes [where s = example_session and m = example_message
        and a = "example_args False True False"] ok
    by (simp add: example_args_def)
  show "fst (main (example_args True False False) (example_world (Typed ''no'') RunOk)
          example_session) = 0"
    using exit_codes [where s = example_session and m = example_message
        and a = "example_args True False False" and w = "example_world (Typed ''no'') RunOk" and r = "''no''"] ok
    by (simp add: example_args_def example_world_def lower_y)
  show "fst (main (example_args True False False) (example_world (Typed ''y'') RunOk)
          example_session) = 0"
    using exit_codes [where s = example_session and m = example_message
        and a = "example_args True False False" and w = "example_world (Typed ''y'') RunOk" and r = "''y''"] ok
    by (simp add: example_args_def example_world_def lower_y)
  show "fst (main (example_args True False False) (example_world (Typed ''y'') CalledProcessError)
          example_session) = 1"
    using exit_codes [where s = example_session and m = example_message
        and a = "example_args True False False" and w = "example_world (Typed ''y'') CalledProcessError" and r = "''y''"] ok
    by (simp add: example_args_def example_world_def lower_y)
qed

text \<open>
  C7. With \<open>preview\<close> set, whatever the other flags: no effect of the run writes to the
  clipboard, asks for confirmation or calls \<^verbatim>\<open>git commit\<close>, and when a message was
  produced the run shows it, reports the preview and ends with exit code 0.
\<close>

theorem preview_only:
  assumes "preview a"
  shows "(\<forall>e\<in>set (snd (main a w s)). \<not> side_effect e) \<and>
         (fst (generate_commit_message s) = Returned (Some m) \<and> m \<noteq> [] \<longrightarrow>
            main a w s = (0, [ShowMessage m, PreviewComplete]))"
proof
  show "\<forall>e\<in>set (snd (main a w s)). \<not> side_effect e"
  proof (cases s rule: generate_cases)
    case 1
    then show ?thesis by (simp add: main_interrupted)
  next
    case 2
    then show ?thesis by (auto simp: main_without_message dest: generate_errs)
  next
    case (3 m')
    with assms show ?thesis by (simp add: main_with_message dispatch_preview)
  qed
  show "fst (generate_commit_message s) = Returned (Some m) \<and> m \<noteq> [] \<longrightarrow>
            main a w s = (0, [ShowMessage m, PreviewComplete])"
    using assms by (simp add: main_with_message dispatch_preview)
qed

theorem preview_only_witness:
  "main (example_args True True True) (example_world (Typed ''y'') RunOk) example_session
     = (0, [ShowMessage example_message, PreviewComplete])"
  using preview_only [where a = "example_args True True True" and s = example_session
      and m = example_message]
    example_session_message example_message_not_Nil
  by (simp add: example_args_def)

text \<open>
  C8. With neither \<open>commit\<close> nor \<open>preview\<close> set and a message produced, the run ends
  with the suggestion of a command; the printed command is \<^verbatim>\<open>git commit -m\<close> followed by
  the message between single quotes, in which every single quote is replaced by the four
  characters quote, backslash, quote, quote. A message that contains \<^verbatim>\<open>it's\<close> has,
  at that place of the command, \<^verbatim>\<open>it\<close>, then these four characters, then \<^verbatim>\<open>s\<close>.
\<close>

theorem suggested_command_escapes:
  assumes "\<not> commit a" and "\<not> preview a"
    and "fst (generate_commit_message s) = Returned (Some m)" and "m \<noteq> []"
  shows "main a w s =
           (0, ShowMessage m # (if copy a then copy_to_clipboard w m else []) @
                 [SuggestCommand m]) \<and>
         suggested_command m =
           ''   git commit -m '' @ [QUOTE] @
             concat (map (\<lambda>c. if c = QUOTE then [QUOTE, BACKSLASH, QUOTE, QUOTE] else [c]) m) @
             [QUOTE] \<and>
         (\<forall>u v. m = u @ ''it'' @ [QUOTE] @ ''s'' @ v \<longrightarrow>
            suggested_command m =
              ''   git commit -m '' @ [QUOTE] @ escaped_message u @
                ''it'' @ [QUOTE, BACKSLASH, QUOTE, QUOTE] @ ''s'' @ escaped_message v @ [QUOTE])"
proof (intro conjI allI impI)
  from assms(3,4) have "main a w s = dispatch a w m" by (rule main_with_message)
  with assms(1,2) show "main a w s =
      (0, ShowMessage m # (if copy a then copy_to_clipboard w m else []) @ [SuggestCommand m])"
    by (simp add: dispatch_suggest)
  show "suggested_command m =
      ''   git commit -m '' @ [QUOTE] @
        concat (map (\<lambda>c. if c = QUOTE then [QUOTE, BACKSLASH, QUOTE, QUOTE] else [c]) m) @
        [QUOTE]"
    by (simp add: suggested_command_def escaped_message_def replace_char)
next
  fix u v
  assume "m = u @ ''it'' @ [QUOTE] @ ''s'' @ v"
  moreover have "escaped_message (''it'' @ [QUOTE] @ ''s'')
      = ''it'' @ [QUOTE, BACKSLASH, QUOTE, QUOTE] @ ''s''"
    by (simp add: escaped_message_def QUOTE_def)
  ultimately have "escaped_message m
      = escaped_message u @ (''it'' @ [QUOTE, BACKSLASH, QUOTE, QUOTE] @ ''s'') @ escaped_message v"
    using escaped_message_append [of u "(''it'' @ [QUOTE] @ ''s'') @ v"]
      escaped_message_append [of "''it'' @ [QUOTE] @ ''s''" v]
    by simp
  then show "suggested_command m =
      ''   git commit -m '' @ [QUOTE] @ escaped_message u @
        ''it'' @ [QUOTE, BACKSLASH, QUOTE, QUOTE] @ ''s'' @ escaped_message v @ [QUOTE]"
    by (simp add: suggested_command_def)
qed

theorem suggested_command_escapes_witness:
  "main (example_args False False False) (example_world (Typed ''y'') RunOk) example_session
     = (0, [ShowMessage example_message, SuggestCommand example_message]) \<and>
   suggested_command example_message =
     ''   git commit -m '' @ [QUOTE] @ ''fix: it'' @ [QUOTE, BACKSLASH, QUOTE, QUOTE] @
       ''s broken'' @ [QUOTE]"
proof -
  have flags: "\<not> commit (example_args False False False)"
    "\<not> preview (example_args False False False)" "\<not> copy (example_args False False False)"
    by (simp_all add: example_args_def)
  note escapes = suggested_command_escapes [OF flags(1,2) example_session_message
      example_message_not_Nil, of "example_world (Typed ''y'') RunOk"]
  from escapes flags(3) have shown: "main (example_args False False False)
      (example_world (Typed ''y'') RunOk) example_session
     = (0, [ShowMessage example_message, SuggestCommand example_message])"
    by simp
  have "example_message = ''fix: '' @ ''it'' @ [QUOTE] @ ''s'' @ '' broken''"
    by (simp add: example_message_def)
  with escapes have "suggested_command example_message =
      ''   git commit -m '' @ [QUOTE] @ escaped_message ''fix: '' @
        ''it'' @ [QUOTE, BACKSLASH, QUOTE, QUOTE] @ ''s'' @ escaped_message '' broken'' @ [QUOTE]"
    by blast
  moreover have "escaped_message ''fix: '' = ''fix: ''"
    and "escaped_message '' broken'' = '' broken''"
    by (simp_all add: escaped_message_def QUOTE_def)
  ultimately show ?thesis using shown by simp
qed

text \<open>
  C9. The cleanup is idempotent: cleaning a cleaned string changes nothing, for the function
  on strings and for the guarded step the event loop applies.
\<close>

theorem cleanup_idempotent:
  "cleanup (cleanup s) = cleanup s \<and> cleanup_step (cleanup_step cm) = cleanup_step cm"
proof
  show c: "cleanup (cleanup s) = cleanup s" for s
  proof (cases "cleanup s = []")
    case True
    then show ?thesis by (simp add: cleanup_Nil)
  next
    case False
    then show ?thesis by (intro cleanup_fixed cleanup_invariant)
  qed
  show "cleanup_step (cleanup_step cm) = cleanup_step cm"
    by (cases cm) (simp_all add: cleanup_step_def c)
qed

text \<open>
  C10. Every message an effect of the run shows, copies to the clipboard, commits or embeds
  in the suggested command satisfies the invariant of the cleanup: it is not empty, has no
  blank line, no fence line, no line ending in whitespace, and no whitespace at either end.
\<close>

theorem acted_message_invariant:
  assumes "e \<in> set (snd (main a w s))" and "acted_on e = Some m"
  shows "post_cleanup_invariant m"
proof (cases s rule: generate_cases)
  case 1
  with assms show ?thesis by (simp add: main_interrupted)
next
  case 2
  with assms show ?thesis by (auto simp: main_without_message dest: generate_errs)
next
  case (3 m0)
  then have "main a w s = dispatch a w m0" by (simp add: main_with_message)
  with assms have "m = m0" by (auto dest: dispatch_acted)
  moreover obtain errs where "generate_commit_message s = (Returned (Some m0), errs)"
    using 3(1) by (cases "generate_commit_message s") simp
  then have "m0 = [] \<or> post_cleanup_invariant m0" by (simp add: generate_ok)
  ultimately show ?thesis using 3(2) by simp
qed

theorem acted_message_invariant_witness:
  "GitCommit example_message \<in> set (snd (main (example_args True True False)
      (example_world (Typed ''y'') RunOk) example_session)) \<and>
   post_cleanup_invariant example_message"
proof -
  have "main (example_args True True False) (example_world (Typed ''y'') RunOk) example_session
      = (0, [ShowMessage example_message,
             ClipboardWrite ''xclip -selection clipboard'' example_message, Copied,
             AskConfirm, GitCommit example_message, Committed])"
    by code_simp
  then have in_effects: "GitCommit example_message \<in> set (snd (main (example_args True True False)
      (example_world (Typed ''y'') RunOk) example_session))"
    by simp
  from acted_message_invariant [OF in_effects] show ?thesis
    using in_effects by simp
qed

end
